theory Spec2Isabelle
  imports Main "HOL-Library.Word"
begin

section \<open>Data model of \<open>ringbuffer.h\<close>\<close>

text \<open>
  The header manages a circular array of \<open>OPPLE_QUEUE *\<close> slots through four raw
  pointers and two \<open>uint16_t\<close> fields. Pointers into the caller's slot array are
  modelled as slot addresses (natural numbers counting slots, so \<open>p + 1\<close> is the C
  expression \<open>p + 1\<close> on an \<open>OPPLE_QUEUE **\<close>), the two \<open>uint16_t\<close> fields as
  16-bit words whose arithmetic wraps, and the slot array as an explicit store from
  slot addresses to entry references. The type variable \<open>'e\<close> stands for the
  stored \<open>OPPLE_QUEUE *\<close> values; the header never dereferences them.

  A state is the structure together with the slot store. The structure is kept apart
  from the store: the array handed to \<open>ringbuffer_init\<close> is the caller's and does
  not overlap the \<open>ringbuffer_t\<close> object, so a store through \<open>in\<close> changes a slot
  and no field. A load from a slot gives whatever the store holds there.

  The field names \<open>in\<close>, \<open>out\<close>, \<open>start\<close>, \<open>end\<close>, \<open>size\<close>, \<open>sount\<close> of
  \<open>ringbuffer_t\<close> carry the prefix \<open>rb_\<close> here.
\<close>

type_synonym addr = nat
type_synonym u16 = "16 word"
type_synonym u8 = "8 word"

record ringbuffer_t =
  rb_in :: addr
  rb_out :: addr
  rb_start :: addr
  rb_end :: addr
  rb_size :: u16
  rb_sount :: u16

type_synonym 'e slots = "addr \<Rightarrow> 'e"
type_synonym 'e rb_state = "ringbuffer_t \<times> 'e slots"

section \<open>The inline functions\<close>

text \<open>
  \<open>ringbuffer_init(buffer, dataptr, size)\<close> assigns all six fields;
  \<open>&dataptr[size]\<close> is the slot address \<open>dataptr + size\<close>. The slot array itself is
  not written.
\<close>

definition ringbuffer_init :: "ringbuffer_t \<Rightarrow> addr \<Rightarrow> u16 \<Rightarrow> ringbuffer_t" where
  "ringbuffer_init buffer dataptr sz =
     buffer\<lparr>rb_in := dataptr, rb_out := dataptr, rb_start := dataptr,
            rb_end := dataptr + unat sz, rb_size := sz, rb_sount := 0\<rparr>"

definition ringbuffer_get_count :: "ringbuffer_t \<Rightarrow> u16" where
  "ringbuffer_get_count buffer = rb_sount buffer"

text \<open>The subtraction is converted back to \<open>uint16_t\<close> on return, so it wraps.\<close>

definition ringbuffer_get_free_count :: "ringbuffer_t \<Rightarrow> u16" where
  "ringbuffer_get_free_count buffer = rb_size buffer - ringbuffer_get_count buffer"

text \<open>The two predicates return the C truth value of the comparison as a \<open>uint8_t\<close>.\<close>

definition ringbuffer_is_empty :: "ringbuffer_t \<Rightarrow> u8" where
  "ringbuffer_is_empty buffer = (if ringbuffer_get_count buffer = 0 then 1 else 0)"

definition ringbuffer_is_full :: "ringbuffer_t \<Rightarrow> u8" where
  "ringbuffer_is_full buffer =
     (if ringbuffer_get_count buffer = rb_size buffer then 1 else 0)"

text \<open>
  \<open>ringbuffer_insert\<close>: store through \<open>in\<close>, pre-increment \<open>in\<close>, reset it to
  \<open>start\<close> when it has reached \<open>end\<close>, then increment \<open>sount\<close>. No check of any
  kind is made. The diagnostic \<open>printf\<close> writes to the standard output only and
  is not part of the state modelled here.
\<close>

fun ringbuffer_insert :: "'e rb_state \<Rightarrow> 'e \<Rightarrow> 'e rb_state" where
  "ringbuffer_insert (buffer, mem) Data =
     (let mem1 = mem(rb_in buffer := Data);
          b1 = buffer\<lparr>rb_in := rb_in buffer + 1\<rparr>;
          b2 = (if rb_in b1 = rb_end b1 then b1\<lparr>rb_in := rb_start b1\<rparr> else b1);
          b3 = b2\<lparr>rb_sount := rb_sount b2 + 1\<rparr>
      in (b3, mem1))"

text \<open>
  \<open>ringbuffer_remove\<close>: load through \<open>out\<close>, pre-increment \<open>out\<close>, reset it to
  \<open>start\<close> when it has reached \<open>end\<close>, decrement \<open>sount\<close>, return the loaded
  reference (paired here with the new state).
\<close>

fun ringbuffer_remove :: "'e rb_state \<Rightarrow> 'e \<times> 'e rb_state" where
  "ringbuffer_remove (buffer, mem) =
     (let Data = mem (rb_out buffer);
          b1 = buffer\<lparr>rb_out := rb_out buffer + 1\<rparr>;
          b2 = (if rb_out b1 = rb_end b1 then b1\<lparr>rb_out := rb_start b1\<rparr> else b1);
          b3 = b2\<lparr>rb_sount := rb_sount b2 - 1\<rparr>
      in (Data, (b3, mem)))"

fun ringbuffer_peek :: "'e rb_state \<Rightarrow> 'e" where
  "ringbuffer_peek (buffer, mem) = mem (rb_out buffer)"

section \<open>Calls on a buffer\<close>

text \<open>
  A call of one of the seven functions that take an initialised buffer, with the
  value it returns. The five functions declared with \<open>ringbuffer_t *const\<close> whose
  bodies contain no assignment through \<open>buffer\<close> hand the state back as it was.
\<close>

datatype 'e rb_op =
  Get_count | Get_free_count | Is_empty | Is_full | Insert 'e | Remove | Peek

datatype 'e rb_ret = Ret_void | Ret_u16 u16 | Ret_u8 u8 | Ret_ref 'e

fun rb_call :: "'e rb_state \<Rightarrow> 'e rb_op \<Rightarrow> 'e rb_ret \<times> 'e rb_state" where
  "rb_call s Get_count = (Ret_u16 (ringbuffer_get_count (fst s)), s)"
| "rb_call s Get_free_count = (Ret_u16 (ringbuffer_get_free_count (fst s)), s)"
| "rb_call s Is_empty = (Ret_u8 (ringbuffer_is_empty (fst s)), s)"
| "rb_call s Is_full = (Ret_u8 (ringbuffer_is_full (fst s)), s)"
| "rb_call s (Insert Data) = (Ret_void, ringbuffer_insert s Data)"
| "rb_call s Remove = (case ringbuffer_remove s of (Data, s') \<Rightarrow> (Ret_ref Data, s'))"
| "rb_call s Peek = (Ret_ref (ringbuffer_peek s), s)"

text \<open>
  A caller's history is a list of calls. \<open>rb_run\<close> performs them in order and
  collects the returned values; \<open>legal\<close> says that the caller kept the
  documented discipline on the way: \<open>ringbuffer_is_full\<close> answered false before
  every insert and \<open>ringbuffer_is_empty\<close> answered false before every remove.
\<close>

fun rb_run :: "'e rb_state \<Rightarrow> 'e rb_op list \<Rightarrow> 'e rb_ret list \<times> 'e rb_state" where
  "rb_run s [] = ([], s)"
| "rb_run s (c # cs) =
     (case rb_call s c of (r, s1) \<Rightarrow>
        (case rb_run s1 cs of (rs, s2) \<Rightarrow> (r # rs, s2)))"

fun legal :: "'e rb_state \<Rightarrow> 'e rb_op list \<Rightarrow> bool" where
  "legal s [] = True"
| "legal s (Insert Data # cs) =
     (ringbuffer_is_full (fst s) = 0 \<and> legal (ringbuffer_insert s Data) cs)"
| "legal s (Remove # cs) =
     (ringbuffer_is_empty (fst s) = 0 \<and> legal (snd (ringbuffer_remove s)) cs)"
| "legal s (c # cs) = legal s cs"

text \<open>The references handed to insert, and those handed back by remove, in call order.\<close>

fun inserted :: "'e rb_op list \<Rightarrow> 'e list" where
  "inserted [] = []"
| "inserted (Insert Data # cs) = Data # inserted cs"
| "inserted (c # cs) = inserted cs"

fun removed :: "'e rb_op list \<Rightarrow> 'e rb_ret list \<Rightarrow> 'e list" where
  "removed (Remove # cs) (Ret_ref Data # rs) = Data # removed cs rs"
| "removed (c # cs) (r # rs) = removed cs rs"
| "removed cs rs = []"

fun removes :: "'e rb_op list \<Rightarrow> nat" where
  "removes [] = 0"
| "removes (Remove # cs) = Suc (removes cs)"
| "removes (c # cs) = removes cs"

section \<open>Representation invariant and abstraction\<close>

text \<open>
  With \<open>N\<close> the capacity, \<open>c\<close> the count and \<open>ofs\<close> the offset of \<open>out\<close> from
  \<open>start\<close>: the array spans \<open>N\<close> slots, \<open>c \<le> N\<close>, \<open>out\<close> is a slot of the array
  (or the empty array's start), and \<open>in\<close> is \<open>c\<close> slots ahead of \<open>out\<close>, cyclically.
\<close>

definition rb_inv :: "ringbuffer_t \<Rightarrow> bool" where
  "rb_inv b =
     (let N = unat (rb_size b); c = unat (rb_sount b); ofs = rb_out b - rb_start b
      in rb_end b = rb_start b + N \<and> c \<le> N \<and> rb_start b \<le> rb_out b
         \<and> (if N = 0 then ofs = 0 else ofs < N)
         \<and> rb_in b = rb_start b + (ofs + c) mod N)"

text \<open>The pending references, oldest first: the \<open>c\<close> slots from \<open>out\<close> on, cyclically.\<close>

definition pending :: "'e rb_state \<Rightarrow> 'e list" where
  "pending s =
     (let b = fst s; N = unat (rb_size b); ofs = rb_out b - rb_start b
      in map (\<lambda>k. snd s (rb_start b + (ofs + k) mod N)) [0..<unat (rb_sount b)])"

section \<open>Auxiliary notions used in the statements\<close>

text \<open>Successive inserts of the references \<open>es\<close>, with no other call in between.\<close>

fun insert_all :: "'e rb_state \<Rightarrow> 'e list \<Rightarrow> 'e rb_state" where
  "insert_all s [] = s"
| "insert_all s (Data # es) = insert_all (ringbuffer_insert s Data) es"

text \<open>
  The free count read as a number is the capacity minus the count, both read as
  numbers (no wrap-around involved).
\<close>

definition free_is_capacity_minus_count :: "ringbuffer_t \<Rightarrow> bool" where
  "free_is_capacity_minus_count b =
     (uint (ringbuffer_get_free_count b) = uint (rb_size b) - uint (ringbuffer_get_count b))"

text \<open>
  The count is at most the capacity, and the offsets of both cursors from the start of
  the array lie in \<open>[0, capacity)\<close>.
\<close>

definition count_and_cursors_in_range :: "ringbuffer_t \<Rightarrow> bool" where
  "count_and_cursors_in_range b =
     (unat (rb_sount b) \<le> unat (rb_size b)
      \<and> rb_start b \<le> rb_in b \<and> rb_in b - rb_start b < unat (rb_size b)
      \<and> rb_start b \<le> rb_out b \<and> rb_out b - rb_start b < unat (rb_size b))"

text \<open>Both cursors point at slots of the array, that is into \<open>[start, end)\<close>.\<close>

definition cursors_in_array :: "ringbuffer_t \<Rightarrow> bool" where
  "cursors_in_array b =
     (rb_start b \<le> rb_in b \<and> rb_in b < rb_end b
      \<and> rb_start b \<le> rb_out b \<and> rb_out b < rb_end b)"

text \<open>A buffer structure with all fields zero, as a concrete not yet initialised one.\<close>

definition zeroed :: ringbuffer_t where
  "zeroed = \<lparr>rb_in = 0, rb_out = 0, rb_start = 0, rb_end = 0, rb_size = 0, rb_sount = 0\<rparr>"

section \<open>Basic facts\<close>

lemma rb_inv_init: "rb_inv (ringbuffer_init b d n)"
  by (simp add: rb_inv_def ringbuffer_init_def)

lemma pending_init: "pending (ringbuffer_init b d n, h) = []"
  by (simp add: pending_def ringbuffer_init_def)

lemma length_pending: "length (pending s) = unat (rb_sount (fst s))"
  by (simp add: pending_def Let_def)

lemma not_full_less:
  assumes "rb_inv b" "ringbuffer_is_full b = 0"
  shows "unat (rb_sount b) < unat (rb_size b)"
proof -
  from assms(2) have "rb_sount b \<noteq> rb_size b"
    by (simp add: ringbuffer_is_full_def ringbuffer_get_count_def split: if_splits)
  then have "unat (rb_sount b) \<noteq> unat (rb_size b)"
    by (simp add: word_unat_eq_iff)
  moreover from assms(1) have "unat (rb_sount b) \<le> unat (rb_size b)"
    by (simp add: rb_inv_def Let_def)
  ultimately show ?thesis by simp
qed

lemma unat_succ_u16:
  fixes c n :: u16
  assumes "unat c < unat n"
  shows "unat (c + 1) = Suc (unat c)"
proof -
  have "unat n < 2 ^ 16" using unsigned_less [of n] by simp
  with assms have "unat c + 1 < 2 ^ 16" by simp
  then show ?thesis by (simp add: unat_word_ariths)
qed

lemma unat_pred_u16:
  fixes c :: u16
  assumes "c \<noteq> 0"
  shows "unat (c - 1) = unat c - 1"
  using assms by (simp add: unat_minus_one)

lemma cyc_distinct:
  fixes N :: nat
  assumes "k < c" "c < N"
  shows "(ofs + k) mod N \<noteq> (ofs + c) mod N"
proof
  assume "(ofs + k) mod N = (ofs + c) mod N"
  then have eq: "(ofs + c) mod N = (ofs + k) mod N" by simp
  from assms have "ofs + k \<le> ofs + c" by simp
  from mod_eq_dvd_iff_nat [OF this, of N] eq have "N dvd (ofs + c) - (ofs + k)"
    by simp
  then have "N dvd c - k" by simp
  moreover from assms have "0 < c - k" "c - k < N" by simp_all
  ultimately show False using nat_dvd_not_less by blast
qed

lemma insert_result:
  "ringbuffer_insert (b, h) e =
     (b\<lparr>rb_in := (if rb_in b + 1 = rb_end b then rb_start b else rb_in b + 1),
        rb_sount := rb_sount b + 1\<rparr>, h(rb_in b := e))"
  by (simp add: Let_def)

lemma remove_result:
  "ringbuffer_remove (b, h) =
     (h (rb_out b),
      (b\<lparr>rb_out := (if rb_out b + 1 = rb_end b then rb_start b else rb_out b + 1),
         rb_sount := rb_sount b - 1\<rparr>, h))"
  by (simp add: Let_def)

lemma rb_invI:
  assumes "rb_end b = rb_start b + unat (rb_size b)"
    and "unat (rb_sount b) \<le> unat (rb_size b)"
    and "rb_out b = rb_start b + ofs"
    and "if unat (rb_size b) = 0 then ofs = 0 else ofs < unat (rb_size b)"
    and "rb_in b = rb_start b + (ofs + unat (rb_sount b)) mod unat (rb_size b)"
  shows "rb_inv b"
  using assms by (simp add: rb_inv_def Let_def)

lemma rb_invD:
  assumes "rb_inv b"
  obtains ofs where "rb_end b = rb_start b + unat (rb_size b)"
    and "unat (rb_sount b) \<le> unat (rb_size b)"
    and "rb_out b = rb_start b + ofs"
    and "if unat (rb_size b) = 0 then ofs = 0 else ofs < unat (rb_size b)"
    and "rb_in b = rb_start b + (ofs + unat (rb_sount b)) mod unat (rb_size b)"
proof
  let ?ofs = "rb_out b - rb_start b"
  from assms show "rb_end b = rb_start b + unat (rb_size b)"
    and "unat (rb_sount b) \<le> unat (rb_size b)"
    and "rb_out b = rb_start b + ?ofs"
    and "if unat (rb_size b) = 0 then ?ofs = 0 else ?ofs < unat (rb_size b)"
    and "rb_in b = rb_start b + (?ofs + unat (rb_sount b)) mod unat (rb_size b)"
    by (simp_all add: rb_inv_def Let_def)
qed

lemma pending_eq:
  assumes "rb_out b = rb_start b + ofs"
  shows "pending (b, h) =
     map (\<lambda>k. h (rb_start b + (ofs + k) mod unat (rb_size b))) [0..<unat (rb_sount b)]"
  using assms by (simp add: pending_def Let_def)

lemma insert_step:
  assumes inv: "rb_inv (fst s)" and nf: "ringbuffer_is_full (fst s) = 0"
  shows "rb_inv (fst (ringbuffer_insert s e))"
    and "pending (ringbuffer_insert s e) = pending s @ [e]"
proof -
  obtain b h where s: "s = (b, h)" by (cases s)
  define N where "N = unat (rb_size b)"
  define c where "c = unat (rb_sount b)"
  from inv nf have cN: "c < N"
    using not_full_less [of b] by (simp add: s N_def c_def)
  then have c1: "unat (rb_sount b + 1) = Suc c"
    using unat_succ_u16 [of "rb_sount b" "rb_size b"] by (simp add: N_def c_def)
  from inv obtain ofs where e: "rb_end b = rb_start b + N"
    and out: "rb_out b = rb_start b + ofs"
    and o': "if N = 0 then ofs = 0 else ofs < N"
    and i: "rb_in b = rb_start b + (ofs + c) mod N"
    unfolding s N_def c_def by (auto elim: rb_invD)
  from o' cN have o: "ofs < N" by (simp split: if_splits)
  have wrap: "(if rb_in b + 1 = rb_end b then rb_start b else rb_in b + 1)
                = rb_start b + (ofs + Suc c) mod N"
    using cN by (simp add: i e mod_Suc)
  let ?b' = "b\<lparr>rb_in := rb_start b + (ofs + Suc c) mod N, rb_sount := rb_sount b + 1\<rparr>"
  have res: "ringbuffer_insert s e = (?b', h(rb_in b := e))"
    unfolding s insert_result wrap ..
  have "rb_inv ?b'"
    by (rule rb_invI [where ofs = ofs]) (use cN o e out in \<open>simp_all add: c1 N_def [symmetric]\<close>)
  then show "rb_inv (fst (ringbuffer_insert s e))" unfolding res by (simp only: fst_conv)
  have "\<forall>k<c. (ofs + k) mod N \<noteq> (ofs + c) mod N"
    using cN cyc_distinct by blast
  moreover have "pending (?b', h(rb_in b := e)) =
     map (\<lambda>k. (h(rb_in b := e)) (rb_start b + (ofs + k) mod N)) [0..<Suc c]"
    using pending_eq [of ?b' ofs "h(rb_in b := e)"] out by (simp add: c1 N_def)
  moreover have "pending (b, h) = map (\<lambda>k. h (rb_start b + (ofs + k) mod N)) [0..<c]"
    using pending_eq [of b ofs h] out by (simp add: c_def N_def)
  ultimately have "pending (?b', h(rb_in b := e)) = pending (b, h) @ [e]"
    by (simp add: i)
  then show "pending (ringbuffer_insert s e) = pending s @ [e]"
    unfolding res unfolding s .
qed

lemma remove_step:
  assumes inv: "rb_inv (fst s)" and ne: "ringbuffer_is_empty (fst s) = 0"
  shows "rb_inv (fst (snd (ringbuffer_remove s)))"
    and "pending s = fst (ringbuffer_remove s) # pending (snd (ringbuffer_remove s))"
proof -
  obtain b h where s: "s = (b, h)" by (cases s)
  define N where "N = unat (rb_size b)"
  define c where "c = unat (rb_sount b)"
  from ne have nz: "rb_sount b \<noteq> 0"
    by (simp add: s ringbuffer_is_empty_def ringbuffer_get_count_def split: if_splits)
  then have c0: "0 < c" by (simp add: c_def unat_gt_0)
  from nz have c1: "unat (rb_sount b - 1) = c - 1"
    by (simp add: unat_pred_u16 c_def)
  from inv obtain ofs where e: "rb_end b = rb_start b + N"
    and cN: "c \<le> N"
    and out: "rb_out b = rb_start b + ofs"
    and o': "if N = 0 then ofs = 0 else ofs < N"
    and i: "rb_in b = rb_start b + (ofs + c) mod N"
    unfolding s N_def c_def by (auto elim: rb_invD)
  from o' cN c0 have o: "ofs < N" by (simp split: if_splits)
  have wrap: "(if rb_out b + 1 = rb_end b then rb_start b else rb_out b + 1)
                = rb_start b + Suc ofs mod N"
    using o by (simp add: out e mod_Suc)
  let ?b' = "b\<lparr>rb_out := rb_start b + Suc ofs mod N, rb_sount := rb_sount b - 1\<rparr>"
  have res: "ringbuffer_remove s = (h (rb_out b), (?b', h))"
    unfolding s remove_result wrap ..
  have shift: "(Suc ofs mod N + k) mod N = (ofs + Suc k) mod N" for k
    by (simp add: mod_add_left_eq)
  have "(Suc ofs mod N + (c - 1)) mod N = (ofs + c) mod N"
    using c0 shift [of "c - 1"] by simp
  then have "rb_inv ?b'"
    by (intro rb_invI [where ofs = "Suc ofs mod N"])
       (use cN o e i in \<open>simp_all add: c1 N_def [symmetric]\<close>)
  then show "rb_inv (fst (snd (ringbuffer_remove s)))"
    unfolding res by (simp only: fst_conv snd_conv)
  have upt: "[0..<c] = 0 # map Suc [0..<c - 1]"
    using c0 by (metis Suc_pred' map_Suc_upt upt_conv_Cons)
  have "pending (?b', h) = map (\<lambda>k. h (rb_start b + (Suc ofs mod N + k) mod N)) [0..<c - 1]"
    using pending_eq [of ?b' "Suc ofs mod N" h] by (simp add: c1 N_def)
  moreover have "pending (b, h) = map (\<lambda>k. h (rb_start b + (ofs + k) mod N)) [0..<c]"
    using pending_eq [of b ofs h] out by (simp add: c_def N_def)
  ultimately have "pending (b, h) = h (rb_out b) # pending (?b', h)"
    using o by (simp add: upt shift out comp_def)
  then show "pending s = fst (ringbuffer_remove s) # pending (snd (ringbuffer_remove s))"
    unfolding res unfolding s by (simp only: fst_conv snd_conv)
qed


lemma run_refines:
  assumes "rb_inv (fst s)" and "legal s cs" and "rb_run s cs = (rs, s')"
  shows "rb_inv (fst s') \<and> pending s @ inserted cs = removed cs rs @ pending s'
         \<and> length (removed cs rs) = removes cs"
  using assms
proof (induction cs arbitrary: s rs)
  case Nil
  then show ?case by simp
next
  case (Cons c cs)
  obtain r s1 where c: "rb_call s c = (r, s1)" by (cases "rb_call s c")
  obtain rs1 where run1: "rb_run s1 cs = (rs1, s')" and rs: "rs = r # rs1"
    using Cons.prems(3) c by (auto split: prod.splits)
  show ?case
  proof (cases c)
    case (Insert e)
    with c have s1: "s1 = ringbuffer_insert s e" and r: "r = Ret_void" by simp_all
    from Cons.prems(2) Insert have nf: "ringbuffer_is_full (fst s) = 0"
      and l1: "legal s1 cs" by (simp_all add: s1)
    from insert_step [OF Cons.prems(1) nf, of e]
    have "rb_inv (fst s1)" and "pending s1 = pending s @ [e]" by (simp_all add: s1)
    with Cons.IH [OF _ l1 run1] show ?thesis by (simp add: Insert rs r)
  next
    case Remove
    with c have s1: "s1 = snd (ringbuffer_remove s)"
      and r: "r = Ret_ref (fst (ringbuffer_remove s))" by (simp_all split: prod.splits)
    from Cons.prems(2) Remove have ne: "ringbuffer_is_empty (fst s) = 0"
      and l1: "legal s1 cs" by (simp_all add: s1)
    from remove_step [OF Cons.prems(1) ne]
    have "rb_inv (fst s1)" and "pending s = fst (ringbuffer_remove s) # pending s1"
      by (simp_all add: s1)
    with Cons.IH [OF _ l1 run1] show ?thesis by (simp add: Remove rs r)
  qed (use c Cons.prems Cons.IH [OF _ _ run1] rs in auto)
qed

lemma run_nth_remove:
  assumes "rb_inv (fst s)" and "legal s cs" and "rb_run s cs = (rs, s')"
    and "i < length cs" and "cs ! i = Remove"
  shows "rs ! i = Ret_ref ((pending s @ inserted cs) ! removes (take i cs))"
  using assms
proof (induction cs arbitrary: s rs i)
  case Nil
  then show ?case by simp
next
  case (Cons c cs)
  obtain r s1 where c: "rb_call s c = (r, s1)" by (cases "rb_call s c")
  obtain rs1 where run1: "rb_run s1 cs = (rs1, s')" and rs: "rs = r # rs1"
    using Cons.prems(3) c by (auto split: prod.splits)
  show ?case
  proof (cases i)
    case 0
    with Cons.prems(5) have cR: "c = Remove" by simp
    with c have r: "r = Ret_ref (fst (ringbuffer_remove s))" by (simp split: prod.splits)
    from Cons.prems(2) cR have ne: "ringbuffer_is_empty (fst s) = 0" by simp
    from remove_step(2) [OF Cons.prems(1) ne] show ?thesis
      by (simp add: 0 rs r)
  next
    case (Suc j)
    with Cons.prems have j: "j < length cs" "cs ! j = Remove" by simp_all
    show ?thesis
    proof (cases c)
      case (Insert e)
      with c have s1: "s1 = ringbuffer_insert s e" by simp
      from Cons.prems(2) Insert have nf: "ringbuffer_is_full (fst s) = 0"
        and l1: "legal s1 cs" by (simp_all add: s1)
      from insert_step [OF Cons.prems(1) nf, of e]
      have "rb_inv (fst s1)" and "pending s1 = pending s @ [e]" by (simp_all add: s1)
      with Cons.IH [OF _ l1 run1 j] show ?thesis by (simp add: Insert rs Suc)
    next
      case Remove
      with c have s1: "s1 = snd (ringbuffer_remove s)" by (simp split: prod.splits)
      from Cons.prems(2) Remove have ne: "ringbuffer_is_empty (fst s) = 0"
        and l1: "legal s1 cs" by (simp_all add: s1)
      from remove_step [OF Cons.prems(1) ne]
      have "rb_inv (fst s1)" and "pending s = fst (ringbuffer_remove s) # pending s1"
        by (simp_all add: s1)
      with Cons.IH [OF _ l1 run1 j] show ?thesis by (simp add: Remove rs Suc)
    qed (use c Cons.prems Cons.IH [OF _ _ run1 j] rs Suc in auto)
  qed
qed

lemma legal_take: "legal s cs \<Longrightarrow> legal s (take i cs)"
proof (induction cs arbitrary: s i)
  case Nil
  then show ?case by simp
next
  case (Cons c cs)
  show ?case
  proof (cases i)
    case 0
    then show ?thesis by simp
  next
    case (Suc j)
    with Cons show ?thesis by (cases c) simp_all
  qed
qed

lemma run_take: "rb_run s cs = (rs, s') \<Longrightarrow> fst (rb_run s (take i cs)) = take i rs"
proof (induction cs arbitrary: s rs i)
  case Nil
  then show ?case by simp
next
  case (Cons c cs)
  show ?case
  proof (cases i)
    case 0
    then show ?thesis by simp
  next
    case (Suc j)
    obtain r s1 where c: "rb_call s c = (r, s1)" by (cases "rb_call s c")
    obtain rs1 where run1: "rb_run s1 cs = (rs1, s')" and rs: "rs = r # rs1"
      using Cons.prems c by (auto split: prod.splits)
    from Cons.IH [OF run1, of j] show ?thesis
      by (auto simp add: Suc c rs split: prod.splits)
  qed
qed

lemma take_Suc_Remove:
  assumes "i < length cs" "cs ! i = Remove"
  shows "inserted (take (Suc i) cs) = inserted (take i cs)"
    and "removes (take (Suc i) cs) = Suc (removes (take i cs))"
  using assms
proof (induction cs arbitrary: i)
  case Nil
  { case 1 then show ?case by simp }
  { case 2 then show ?case by simp }
next
  case (Cons c cs)
  { case 1
    then show ?case using Cons.IH(1) by (cases i; cases c) simp_all }
  { case 2
    then show ?case using Cons.IH(2) by (cases i; cases c) simp_all }
qed

lemma insert_fields:
  "rb_sount (fst (ringbuffer_insert s e)) = rb_sount (fst s) + 1"
  "rb_size (fst (ringbuffer_insert s e)) = rb_size (fst s)"
  "rb_start (fst (ringbuffer_insert s e)) = rb_start (fst s)"
  "rb_end (fst (ringbuffer_insert s e)) = rb_end (fst s)"
  by (cases s; simp add: Let_def)+

lemma remove_fields:
  "rb_sount (fst (snd (ringbuffer_remove s))) = rb_sount (fst s) - 1"
  "rb_size (fst (snd (ringbuffer_remove s))) = rb_size (fst s)"
  "rb_start (fst (snd (ringbuffer_remove s))) = rb_start (fst s)"
  "rb_end (fst (snd (ringbuffer_remove s))) = rb_end (fst s)"
  by (cases s; simp add: Let_def)+

lemma insert_all_fields:
  "rb_sount (fst (insert_all s es)) = rb_sount (fst s) + of_nat (length es)"
  "rb_size (fst (insert_all s es)) = rb_size (fst s)"
  by (induction es arbitrary: s) (simp_all add: insert_fields)

lemma unat_of_nat_u16:
  fixes N :: u16
  assumes "k \<le> unat N"
  shows "unat (of_nat k :: u16) = k"
proof -
  have "unat N < 2 ^ 16" using unsigned_less [of N] by simp
  with assms have "k < 2 ^ 16" by simp
  then show ?thesis by (simp add: unat_of_nat)
qed

lemma call_frame:
  "rb_size (fst (snd (rb_call s c))) = rb_size (fst s)"
  "rb_start (fst (snd (rb_call s c))) = rb_start (fst s)"
  "rb_end (fst (snd (rb_call s c))) = rb_end (fst s)"
  by (cases c; cases s; simp add: Let_def)+

lemma run_frame:
  assumes "rb_run s cs = (rs, s')"
  shows "rb_size (fst s') = rb_size (fst s)"
  using assms
proof (induction cs arbitrary: s rs)
  case Nil
  then show ?case by simp
next
  case (Cons c cs)
  obtain r s1 where c: "rb_call s c = (r, s1)" by (cases "rb_call s c")
  obtain rs1 where run1: "rb_run s1 cs = (rs1, s')"
    using Cons.prems c by (auto split: prod.splits)
  from Cons.IH [OF run1] call_frame(1) [of s c] c show ?case by simp
qed

lemma rb_inv_free:
  assumes "rb_inv b"
  shows "free_is_capacity_minus_count b"
proof -
  from assms have "unat (rb_sount b) \<le> unat (rb_size b)"
    by (simp add: rb_inv_def Let_def)
  then have "uint (rb_sount b) \<le> uint (rb_size b)"
    by (simp add: word_le_nat_alt [symmetric] word_le_def)
  then have "uint (rb_size b - rb_sount b) = uint (rb_size b) - uint (rb_sount b)"
    by (simp add: uint_sub_lem)
  then show ?thesis
    by (simp add: free_is_capacity_minus_count_def ringbuffer_get_free_count_def
        ringbuffer_get_count_def)
qed

lemma rb_inv_in_range:
  assumes "rb_inv b" and "1 \<le> unat (rb_size b)"
  shows "count_and_cursors_in_range b"
  using assms by (simp add: rb_inv_def count_and_cursors_in_range_def Let_def)

text \<open>
  Whatever calls are made, in whatever order, the cursors of a buffer initialised with
  a capacity of at least 1 keep pointing at slots of the array: the store in
  \<open>ringbuffer_insert\<close> and the loads in \<open>ringbuffer_remove\<close> and
  \<open>ringbuffer_peek\<close> never leave it.
\<close>

lemma call_in_array:
  assumes "cursors_in_array (fst s)"
  shows "cursors_in_array (fst (snd (rb_call s c)))"
  using assms by (cases c; cases s) (auto simp add: cursors_in_array_def Let_def)

lemma cursors_stay_in_array:
  assumes "cursors_in_array (fst s)" and "rb_run s cs = (rs, s')"
  shows "cursors_in_array (fst s')"
  using assms
proof (induction cs arbitrary: s rs)
  case Nil
  then show ?case by simp
next
  case (Cons c cs)
  obtain r s1 where c: "rb_call s c = (r, s1)" by (cases "rb_call s c")
  obtain rs1 where run1: "rb_run s1 cs = (rs1, s')"
    using Cons.prems(2) c by (auto split: prod.splits)
  from call_in_array [OF Cons.prems(1), of c] c have "cursors_in_array (fst s1)" by simp
  from Cons.IH [OF this run1] show ?case .
qed

lemma init_in_array:
  assumes "1 \<le> unat n"
  shows "cursors_in_array (ringbuffer_init b d n)"
  using assms by (simp add: cursors_in_array_def ringbuffer_init_def)

lemma run_insert_all: "snd (rb_run s (map Insert es)) = insert_all s es"
proof (induction es arbitrary: s)
  case Nil
  then show ?case by simp
next
  case (Cons e es)
  from Cons [of "ringbuffer_insert s e"] show ?case
    by (cases "rb_run (ringbuffer_insert s e) (map Insert es)") simp
qed

lemma legal_inserts:
  assumes "unat (rb_sount (fst s)) + length es \<le> unat (rb_size (fst s))"
  shows "legal s (map Insert es)"
  using assms
proof (induction es arbitrary: s)
  case Nil
  then show ?case by simp
next
  case (Cons e es)
  then have lt: "unat (rb_sount (fst s)) < unat (rb_size (fst s))" by simp
  then have "rb_sount (fst s) \<noteq> rb_size (fst s)" by auto
  then have nf: "ringbuffer_is_full (fst s) = 0"
    by (simp add: ringbuffer_is_full_def ringbuffer_get_count_def)
  have "unat (rb_sount (fst (ringbuffer_insert s e))) = Suc (unat (rb_sount (fst s)))"
    using unat_succ_u16 [OF lt] by (simp add: insert_fields)
  with Cons.prems have "legal (ringbuffer_insert s e) (map Insert es)"
    by (intro Cons.IH) (simp add: insert_fields)
  with nf show ?case by simp
qed

section \<open>FIFO order\<close>

text \<open>
  Claim C1. Take a buffer initialised with any array and capacity, and any history of
  calls on it in which insert is never called on a full buffer and remove never on an
  empty one. Then the references handed back by the remove calls are, in order, exactly
  the first references handed to insert. Call by call: when the \<open>i\<close>-th call is a
  remove, some reference inserted before it has not been removed yet, and the call
  returns the earliest such one, namely the inserted reference whose position equals
  the number of removes made before.
\<close>

theorem fifo_order:
  assumes "legal (ringbuffer_init b d n, h) cs"
    and "rb_run (ringbuffer_init b d n, h) cs = (rs, s')"
  shows "removed cs rs = take (removes cs) (inserted cs)
         \<and> (\<forall>i<length cs. cs ! i = Remove \<longrightarrow>
               removes (take i cs) < length (inserted (take i cs))
               \<and> rs ! i = Ret_ref (inserted (take i cs) ! removes (take i cs)))"
proof -
  let ?s = "(ringbuffer_init b d n, h)"
  have inv: "rb_inv (fst ?s)" by (simp add: rb_inv_init)
  from run_refines [OF inv assms]
  have "inserted cs = removed cs rs @ pending s'" and "length (removed cs rs) = removes cs"
    by (simp_all add: pending_init)
  then have whole: "removed cs rs = take (removes cs) (inserted cs)"
    by (metis append_eq_conv_conj)
  have each: "removes (take i cs) < length (inserted (take i cs))
        \<and> rs ! i = Ret_ref (inserted (take i cs) ! removes (take i cs))"
    if i: "i < length cs" "cs ! i = Remove" for i
  proof -
    let ?ps = "take (Suc i) cs"
    obtain s1 where run1: "rb_run ?s ?ps = (take (Suc i) rs, s1)"
      using run_take [OF assms(2), of "Suc i"] by (cases "rb_run ?s ?ps") simp
    have leg1: "legal ?s ?ps" using assms(1) by (rule legal_take)
    from run_refines [OF inv leg1 run1]
    have "length (inserted ?ps) = removes ?ps + length (pending s1)"
      by (simp add: pending_init)
    then have lt: "removes (take i cs) < length (inserted (take i cs))"
      by (simp add: take_Suc_Remove [OF i])
    have "i < length ?ps" "?ps ! i = Remove" using i by simp_all
    from run_nth_remove [OF inv leg1 run1 this]
    have "rs ! i = Ret_ref (inserted (take i cs) ! removes (take i cs))"
      using i by (simp add: pending_init take_Suc_Remove [OF i] min_def)
    with lt show ?thesis by simp
  qed
  from whole each show ?thesis by blast
qed

theorem fifo_order_witness:
  "legal (ringbuffer_init zeroed 100 2, id)
     [Insert 7, Insert 8, Remove, Insert 9, Remove, Remove]
   \<and> removed [Insert 7, Insert 8, Remove, Insert 9, Remove, Remove]
        (fst (rb_run (ringbuffer_init zeroed 100 2, id)
               [Insert 7, Insert 8, Remove, Insert 9, Remove, Remove])) = [7, 8, 9 :: nat]
   \<and> (2 :: nat) < length [Insert 7, Insert 8, Remove, Insert 9, Remove, Remove :: nat rb_op]
   \<and> [Insert 7, Insert 8, Remove, Insert 9, Remove, Remove :: nat rb_op] ! 2 = Remove
   \<and> fst (rb_run (ringbuffer_init zeroed 100 2, id)
              [Insert 7, Insert 8, Remove, Insert 9, Remove, Remove]) ! 2 = Ret_ref 7"
proof -
  let ?s = "(ringbuffer_init zeroed 100 2, id :: nat \<Rightarrow> nat)"
  let ?cs = "[Insert 7, Insert 8, Remove, Insert 9, Remove, Remove :: nat rb_op]"
  have l: "legal ?s ?cs"
    by (simp add: ringbuffer_init_def zeroed_def ringbuffer_is_full_def
        ringbuffer_is_empty_def ringbuffer_get_count_def Let_def)
  have r: "rb_run ?s ?cs = (fst (rb_run ?s ?cs), snd (rb_run ?s ?cs))"
    by (rule prod.collapse [symmetric])
  have i: "(2 :: nat) < length ?cs" "?cs ! 2 = Remove" by simp_all
  note fifo = fifo_order [OF l r]
  have "take (removes ?cs) (inserted ?cs) = [7, 8, 9]" by simp
  moreover from fifo
  have "removed ?cs (fst (rb_run ?s ?cs)) = take (removes ?cs) (inserted ?cs)"
    by blast
  ultimately have whole: "removed ?cs (fst (rb_run ?s ?cs)) = [7, 8, 9]"
    by (simp only:)
  from fifo i have "fst (rb_run ?s ?cs) ! 2
      = Ret_ref (inserted (take 2 ?cs) ! removes (take 2 ?cs))"
    by blast
  moreover have "inserted (take 2 ?cs) ! removes (take 2 ?cs) = 7" by simp
  ultimately have "fst (rb_run ?s ?cs) ! 2 = Ret_ref 7" by (simp only:)
  with l whole i show ?thesis by blast
qed

section \<open>Counting inserts\<close>

text \<open>
  Claim C2. For every capacity \<open>N \<ge> 1\<close> and every \<open>k\<close> with \<open>0 \<le> k \<le> N\<close>: after
  initialising a buffer of capacity \<open>N\<close> and inserting \<open>k\<close> references with no
  remove in between, the count read as a number is \<open>k\<close>, and
  \<open>ringbuffer_is_full\<close> returns true (1) exactly when \<open>k = N\<close> and false (0)
  otherwise. Each of the \<open>k\<close> inserts is made on a buffer that is not full, and the
  state they lead to is the one the call history of \<open>k\<close> inserts ends in.
\<close>

theorem count_after_inserts:
  assumes "1 \<le> unat N" and "length es \<le> unat N"
  shows "legal (ringbuffer_init b d N, h) (map Insert es)
         \<and> snd (rb_run (ringbuffer_init b d N, h) (map Insert es))
             = insert_all (ringbuffer_init b d N, h) es
         \<and> unat (ringbuffer_get_count (fst (insert_all (ringbuffer_init b d N, h) es)))
             = length es
         \<and> ringbuffer_is_full (fst (insert_all (ringbuffer_init b d N, h) es))
             = (if length es = unat N then 1 else 0)"
proof -
  let ?b = "fst (insert_all (ringbuffer_init b d N, h) es)"
  have c: "rb_sount ?b = of_nat (length es)" and n: "rb_size ?b = N"
    by (simp_all add: insert_all_fields ringbuffer_init_def)
  have u: "unat (rb_sount ?b) = length es"
    unfolding c using assms(2) by (rule unat_of_nat_u16)
  have "(rb_sount ?b = rb_size ?b) = (length es = unat N)"
    using u n by (metis word_unat_eq_iff)
  with u have "unat (ringbuffer_get_count ?b) = length es
      \<and> ringbuffer_is_full ?b = (if length es = unat N then 1 else 0)"
    by (simp add: ringbuffer_get_count_def ringbuffer_is_full_def)
  moreover have "legal (ringbuffer_init b d N, h) (map Insert es)"
    using assms(2) by (intro legal_inserts) (simp add: ringbuffer_init_def)
  ultimately show ?thesis by (simp only: run_insert_all simp_thms)
qed

theorem count_after_inserts_witness:
  "1 \<le> unat (2 :: u16) \<and> length [7, 8 :: nat] \<le> unat (2 :: u16)
   \<and> unat (ringbuffer_get_count (fst (insert_all (ringbuffer_init zeroed 100 2, id) [7, 8 :: nat])))
       = 2
   \<and> ringbuffer_is_full (fst (insert_all (ringbuffer_init zeroed 100 2, id) [7, 8 :: nat])) = 1"
proof -
  have h1: "1 \<le> unat (2 :: u16)" and h2: "length [7, 8 :: nat] \<le> unat (2 :: u16)"
    by simp_all
  from count_after_inserts [OF h1 h2, of zeroed 100 id] h1 h2 show ?thesis by simp
qed

section \<open>The capacity 3 scenario\<close>

text \<open>
  Claim C3. In a buffer of capacity 3 that starts empty, inserting \<open>A\<close>, \<open>B\<close>, \<open>C\<close>
  makes the buffer full with count 3; a remove then returns \<open>A\<close> and leaves count
  2; at that point the write cursor is back at slot 0 of the array, so inserting \<open>D\<close>
  stores it in slot 0; three more removes return \<open>B\<close>, \<open>C\<close>, \<open>D\<close> in this order
  and leave count 0 with the buffer reported empty.
\<close>

theorem scenario_capacity_three:
  "(let s0 = (ringbuffer_init b d 3, h);
        s1 = ringbuffer_insert s0 A;
        s2 = ringbuffer_insert s1 B;
        s3 = ringbuffer_insert s2 C;
        (r4, s4) = ringbuffer_remove s3;
        s5 = ringbuffer_insert s4 D;
        (r6, s6) = ringbuffer_remove s5;
        (r7, s7) = ringbuffer_remove s6;
        (r8, s8) = ringbuffer_remove s7
    in ringbuffer_is_full (fst s3) = 1 \<and> ringbuffer_get_count (fst s3) = 3
       \<and> r4 = A \<and> ringbuffer_get_count (fst s4) = 2
       \<and> ringbuffer_is_full (fst s4) = 0
       \<and> rb_in (fst s4) = d + 0 \<and> snd s5 (d + 0) = D
       \<and> r6 = B \<and> r7 = C \<and> r8 = D
       \<and> ringbuffer_get_count (fst s8) = 0 \<and> ringbuffer_is_empty (fst s8) = 1)"
  by (simp add: Let_def ringbuffer_init_def ringbuffer_is_full_def
      ringbuffer_is_empty_def ringbuffer_get_count_def)

section \<open>Free count\<close>

text \<open>
  Claim C4. In every state reached from an initialisation by calls that keep the
  full/empty discipline, the free count equals the capacity minus the count, as
  numbers. The equation holds again right after each further operation: a new
  initialisation, an insert when the buffer is not full, a remove when it is not
  empty, and a peek.
\<close>

theorem free_count_complement:
  assumes "legal (ringbuffer_init b d n, h) cs"
    and "rb_run (ringbuffer_init b d n, h) cs = (rs, s)"
  shows "free_is_capacity_minus_count (fst s)
         \<and> free_is_capacity_minus_count (ringbuffer_init (fst s) d' n')
         \<and> (ringbuffer_is_full (fst s) = 0 \<longrightarrow>
              free_is_capacity_minus_count (fst (ringbuffer_insert s e)))
         \<and> (ringbuffer_is_empty (fst s) = 0 \<longrightarrow>
              free_is_capacity_minus_count (fst (snd (ringbuffer_remove s))))
         \<and> free_is_capacity_minus_count (fst (snd (rb_call s Peek)))"
proof -
  have "rb_inv (fst (ringbuffer_init b d n, h))" by (simp add: rb_inv_init)
  from run_refines [OF this assms] have inv: "rb_inv (fst s)" by simp
  have "free_is_capacity_minus_count (fst s)" using inv by (rule rb_inv_free)
  moreover have "free_is_capacity_minus_count (ringbuffer_init (fst s) d' n')"
    by (rule rb_inv_free) (rule rb_inv_init)
  moreover have "free_is_capacity_minus_count (fst (ringbuffer_insert s e))"
    if "ringbuffer_is_full (fst s) = 0"
    by (rule rb_inv_free) (rule insert_step(1) [OF inv that])
  moreover have "free_is_capacity_minus_count (fst (snd (ringbuffer_remove s)))"
    if "ringbuffer_is_empty (fst s) = 0"
    by (rule rb_inv_free) (rule remove_step(1) [OF inv that])
  moreover have "free_is_capacity_minus_count (fst (snd (rb_call s Peek)))"
    using inv by (simp add: rb_inv_free)
  ultimately show ?thesis by blast
qed

theorem free_count_complement_witness:
  "legal (ringbuffer_init zeroed 100 2, id) [Insert 7, Remove, Insert 8]
   \<and> free_is_capacity_minus_count
        (fst (snd (rb_run (ringbuffer_init zeroed 100 2, id) [Insert 7, Remove, Insert (8 :: nat)])))
   \<and> ringbuffer_is_full
        (fst (snd (rb_run (ringbuffer_init zeroed 100 2, id) [Insert 7, Remove, Insert (8 :: nat)]))) = 0
   \<and> ringbuffer_is_empty
        (fst (snd (rb_run (ringbuffer_init zeroed 100 2, id) [Insert 7, Remove, Insert (8 :: nat)]))) = 0
   \<and> free_is_capacity_minus_count
        (fst (ringbuffer_insert
           (snd (rb_run (ringbuffer_init zeroed 100 2, id) [Insert 7, Remove, Insert (8 :: nat)])) 9))
   \<and> free_is_capacity_minus_count
        (fst (snd (ringbuffer_remove
           (snd (rb_run (ringbuffer_init zeroed 100 2, id) [Insert 7, Remove, Insert (8 :: nat)])))))"
proof -
  let ?s = "(ringbuffer_init zeroed 100 2, id :: nat \<Rightarrow> nat)"
  let ?cs = "[Insert 7, Remove, Insert 8 :: nat rb_op]"
  have l: "legal ?s ?cs"
    by (simp add: ringbuffer_init_def zeroed_def ringbuffer_is_full_def
        ringbuffer_is_empty_def ringbuffer_get_count_def Let_def)
  have r: "rb_run ?s ?cs = (fst (rb_run ?s ?cs), snd (rb_run ?s ?cs))"
    by (rule prod.collapse [symmetric])
  have nf: "ringbuffer_is_full (fst (snd (rb_run ?s ?cs))) = 0"
    and ne: "ringbuffer_is_empty (fst (snd (rb_run ?s ?cs))) = 0"
    by (simp_all add: ringbuffer_init_def zeroed_def ringbuffer_is_full_def
        ringbuffer_is_empty_def ringbuffer_get_count_def Let_def)
  from free_count_complement [OF l r, of 0 0 9] l nf ne show ?thesis by blast
qed

section \<open>Peek\<close>

text \<open>
  Claim C5. In every buffer state, a peek leaves the whole state (structure and slot
  array) as it was, so the count afterwards is the count before and a remove made
  after the peek returns the same reference, and leaves the same state, as a remove
  made without it. The reference a peek returns is the content of the slot at the
  read cursor, which is also what the next remove returns.
\<close>

theorem peek_changes_nothing:
  "snd (rb_call s Peek) = s
   \<and> fst (rb_call s Peek) = Ret_ref (snd s (rb_out (fst s)))
   \<and> ringbuffer_get_count (fst (snd (rb_call s Peek))) = ringbuffer_get_count (fst s)
   \<and> ringbuffer_remove (snd (rb_call s Peek)) = ringbuffer_remove s
   \<and> ringbuffer_peek s = fst (ringbuffer_remove s)"
  by (cases s) (simp add: Let_def)

section \<open>Remove on an empty buffer\<close>

text \<open>
  Claim C6, amended. When the count is 0, a remove returns whatever the slot at the
  read cursor holds and decrements the 16-bit count to 65535, the largest value of
  the counter. Afterwards \<open>ringbuffer_is_empty\<close> returns false where it returned
  true before, and the free count is the capacity plus one (modulo \<open>2 ^ 16\<close>) where
  it was the capacity before. \<open>ringbuffer_is_full\<close> returns true exactly for
  capacity 65535; its answer differs from the one before the call only for the
  capacities 0 and 65535, and for every other capacity it is false before and after.
\<close>

theorem remove_on_empty:
  assumes "ringbuffer_get_count b = 0"
  shows "fst (ringbuffer_remove (b, h)) = h (rb_out b)
         \<and> ringbuffer_get_count (fst (snd (ringbuffer_remove (b, h)))) = 65535
         \<and> unat (ringbuffer_get_count (fst (snd (ringbuffer_remove (b, h))))) = 2 ^ 16 - 1
         \<and> ringbuffer_is_empty b = 1
         \<and> ringbuffer_is_empty (fst (snd (ringbuffer_remove (b, h)))) = 0
         \<and> ringbuffer_get_free_count b = rb_size b
         \<and> ringbuffer_get_free_count (fst (snd (ringbuffer_remove (b, h)))) = rb_size b + 1
         \<and> ringbuffer_get_free_count (fst (snd (ringbuffer_remove (b, h))))
             \<noteq> ringbuffer_get_free_count b
         \<and> ringbuffer_is_full (fst (snd (ringbuffer_remove (b, h))))
             = (if rb_size b = 65535 then 1 else 0)
         \<and> (ringbuffer_is_full (fst (snd (ringbuffer_remove (b, h)))) = ringbuffer_is_full b
              \<longleftrightarrow> rb_size b \<noteq> 0 \<and> rb_size b \<noteq> 65535)"
proof -
  let ?s = "snd (ringbuffer_remove (b, h))"
  from assms have z: "rb_sount b = 0" by (simp add: ringbuffer_get_count_def)
  then have c: "rb_sount (fst ?s) = 65535" and n: "rb_size (fst ?s) = rb_size b"
    by (simp_all add: Let_def)
  have "fst (ringbuffer_remove (b, h)) = h (rb_out b)" by (simp add: Let_def)
  moreover have "ringbuffer_get_count (fst ?s) = 65535"
    "unat (ringbuffer_get_count (fst ?s)) = 2 ^ 16 - 1"
    "ringbuffer_is_empty b = 1"
    "ringbuffer_is_empty (fst ?s) = 0"
    "ringbuffer_get_free_count b = rb_size b"
    "ringbuffer_get_free_count (fst ?s) = rb_size b + 1"
    "ringbuffer_get_free_count (fst ?s) \<noteq> ringbuffer_get_free_count b"
    "ringbuffer_is_full (fst ?s) = (if rb_size b = 65535 then 1 else 0)"
    by (auto simp add: c n z ringbuffer_get_count_def ringbuffer_is_empty_def
        ringbuffer_get_free_count_def ringbuffer_is_full_def
        simp del: ringbuffer_remove.simps)
  moreover have "ringbuffer_is_full (fst ?s) = ringbuffer_is_full b
      \<longleftrightarrow> rb_size b \<noteq> 0 \<and> rb_size b \<noteq> 65535"
    by (auto simp add: c n z ringbuffer_get_count_def ringbuffer_is_full_def
        simp del: ringbuffer_remove.simps)
  ultimately show ?thesis by blast
qed

theorem remove_on_empty_witness:
  "ringbuffer_get_count (ringbuffer_init zeroed 100 2) = 0
   \<and> fst (ringbuffer_remove (ringbuffer_init zeroed 100 2, id)) = (100 :: nat)
   \<and> ringbuffer_get_count
        (fst (snd (ringbuffer_remove (ringbuffer_init zeroed 100 2, id :: nat \<Rightarrow> nat)))) = 65535
   \<and> ringbuffer_is_empty
        (fst (snd (ringbuffer_remove (ringbuffer_init zeroed 100 2, id :: nat \<Rightarrow> nat)))) = 0
   \<and> ringbuffer_get_free_count
        (fst (snd (ringbuffer_remove (ringbuffer_init zeroed 100 2, id :: nat \<Rightarrow> nat)))) = 3
   \<and> rb_size (ringbuffer_init zeroed 100 2) \<noteq> 0
   \<and> rb_size (ringbuffer_init zeroed 100 2) \<noteq> 65535
   \<and> ringbuffer_is_full
        (fst (snd (ringbuffer_remove (ringbuffer_init zeroed 100 2, id :: nat \<Rightarrow> nat))))
       = ringbuffer_is_full (ringbuffer_init zeroed 100 2)"
proof -
  have e: "ringbuffer_get_count (ringbuffer_init zeroed 100 2) = 0"
    by (simp add: ringbuffer_get_count_def ringbuffer_init_def)
  have k: "rb_size (ringbuffer_init zeroed 100 2) \<noteq> 0"
    "rb_size (ringbuffer_init zeroed 100 2) \<noteq> 65535"
    by (simp_all add: ringbuffer_init_def)
  note t = remove_on_empty [OF e, of "id :: nat \<Rightarrow> nat"]
  from t k have "ringbuffer_is_full
        (fst (snd (ringbuffer_remove (ringbuffer_init zeroed 100 2, id :: nat \<Rightarrow> nat))))
       = ringbuffer_is_full (ringbuffer_init zeroed 100 2)"
    by blast
  with t e k show ?thesis
    by (simp add: ringbuffer_init_def del: ringbuffer_remove.simps)
qed

text \<open>
  The answer of \<open>ringbuffer_is_full\<close> is not affected at capacity 2: on the freshly
  initialised, empty buffer it is false, and after the remove it is false again, which
  is the right answer for a buffer with nothing queued.
\<close>

theorem remove_on_empty_counterexample:
  "ringbuffer_get_count (ringbuffer_init zeroed 100 2) = 0
   \<and> ringbuffer_is_full (ringbuffer_init zeroed 100 2) = 0
   \<and> ringbuffer_is_full
        (fst (snd (ringbuffer_remove (ringbuffer_init zeroed 100 2, id :: nat \<Rightarrow> nat)))) = 0"
  by (simp add: ringbuffer_get_count_def ringbuffer_is_full_def ringbuffer_init_def Let_def)

section \<open>Invariant of the reachable states\<close>

text \<open>
  Claim C7, amended. For every capacity of at least 1 and every state reached from the
  initialisation by calls that keep the full/empty discipline: the count is at most
  the capacity, the offsets of the write cursor and of the read cursor from the start
  of the array lie in \<open>[0, capacity)\<close>, the capacity is the one given to the
  initialisation, and the count equals the number of references inserted minus the
  number removed.
\<close>

theorem invariant_reachable:
  assumes "1 \<le> unat n"
    and "legal (ringbuffer_init b d n, h) cs"
    and "rb_run (ringbuffer_init b d n, h) cs = (rs, s)"
  shows "count_and_cursors_in_range (fst s)
         \<and> rb_size (fst s) = n
         \<and> int (unat (ringbuffer_get_count (fst s)))
             = int (length (inserted cs)) - int (removes cs)"
proof -
  have "rb_inv (fst (ringbuffer_init b d n, h))" by (simp add: rb_inv_init)
  from run_refines [OF this assms(2,3)]
  have inv: "rb_inv (fst s)" and q: "inserted cs = removed cs rs @ pending s"
    and l: "length (removed cs rs) = removes cs"
    by (simp_all add: pending_init)
  have n: "rb_size (fst s) = n"
    using run_frame [OF assms(3)] by (simp add: ringbuffer_init_def)
  from q l have "length (inserted cs) = removes cs + unat (rb_sount (fst s))"
    by (metis length_append length_pending)
  then have "int (unat (ringbuffer_get_count (fst s)))
             = int (length (inserted cs)) - int (removes cs)"
    by (simp add: ringbuffer_get_count_def)
  moreover have "count_and_cursors_in_range (fst s)"
    using inv assms(1) n by (simp add: rb_inv_in_range)
  ultimately show ?thesis using n by simp
qed

theorem invariant_reachable_witness:
  "1 \<le> unat (2 :: u16)
   \<and> legal (ringbuffer_init zeroed 100 2, id) [Insert 7, Remove, Insert 8]
   \<and> count_and_cursors_in_range
        (fst (snd (rb_run (ringbuffer_init zeroed 100 2, id) [Insert 7, Remove, Insert (8 :: nat)])))
   \<and> unat (ringbuffer_get_count
        (fst (snd (rb_run (ringbuffer_init zeroed 100 2, id) [Insert 7, Remove, Insert (8 :: nat)])))) = 1"
proof -
  let ?s = "(ringbuffer_init zeroed 100 2, id :: nat \<Rightarrow> nat)"
  let ?cs = "[Insert 7, Remove, Insert 8 :: nat rb_op]"
  have n: "1 \<le> unat (2 :: u16)" by simp
  have l: "legal ?s ?cs"
    by (simp add: ringbuffer_init_def zeroed_def ringbuffer_is_full_def
        ringbuffer_is_empty_def ringbuffer_get_count_def Let_def)
  have r: "rb_run ?s ?cs = (fst (rb_run ?s ?cs), snd (rb_run ?s ?cs))"
    by (rule prod.collapse [symmetric])
  from invariant_reachable [OF n l r]
  have a: "count_and_cursors_in_range (fst (snd (rb_run ?s ?cs)))"
    and c: "int (unat (ringbuffer_get_count (fst (snd (rb_run ?s ?cs)))))
              = int (length (inserted ?cs)) - int (removes ?cs)"
    by blast+
  have "int (length (inserted ?cs)) - int (removes ?cs) = 1" by simp
  with c have "unat (ringbuffer_get_count (fst (snd (rb_run ?s ?cs)))) = 1" by linarith
  with n l a show ?thesis by blast
qed

text \<open>
  Without the bound on the capacity the cursor part fails: right after an
  initialisation with capacity 0 both cursors stand at offset 0, which is not below
  the capacity.
\<close>

theorem invariant_capacity_zero_counterexample:
  "legal (ringbuffer_init zeroed 0 0, id :: nat \<Rightarrow> nat) []
   \<and> \<not> count_and_cursors_in_range
         (fst (snd (rb_run (ringbuffer_init zeroed 0 0, id :: nat \<Rightarrow> nat) [])))"
  by (simp add: count_and_cursors_in_range_def ringbuffer_init_def)

section \<open>Initialisation\<close>

text \<open>
  Claim C8. After an initialisation with array \<open>dataptr\<close> and capacity \<open>n\<close>, whatever
  the structure and the array held before, both cursors point at slot 0 of the array,
  the array is bound from \<open>dataptr\<close> to \<open>dataptr + n\<close>, the capacity is \<open>n\<close>, the
  count is 0 and the buffer is reported empty. Nothing is pending any more: in every
  later history that keeps the full/empty discipline, each reference returned by a
  remove was inserted after the initialisation.
\<close>

theorem init_resets:
  "rb_in (ringbuffer_init b d n) = d + 0
   \<and> rb_out (ringbuffer_init b d n) = d + 0
   \<and> rb_start (ringbuffer_init b d n) = d
   \<and> rb_end (ringbuffer_init b d n) = d + unat n
   \<and> rb_size (ringbuffer_init b d n) = n
   \<and> ringbuffer_get_count (ringbuffer_init b d n) = 0
   \<and> ringbuffer_is_empty (ringbuffer_init b d n) = 1
   \<and> pending (ringbuffer_init b d n, h) = []
   \<and> (\<forall>cs rs s'. legal (ringbuffer_init b d n, h) cs
          \<and> rb_run (ringbuffer_init b d n, h) cs = (rs, s')
          \<longrightarrow> set (removed cs rs) \<subseteq> set (inserted cs))"
proof -
  have "set (removed cs rs) \<subseteq> set (inserted cs)"
    if l: "legal (ringbuffer_init b d n, h) cs"
      and r: "rb_run (ringbuffer_init b d n, h) cs = (rs, s')" for cs rs s'
  proof -
    have "rb_inv (fst (ringbuffer_init b d n, h))" by (simp add: rb_inv_init)
    from run_refines [OF this l r] have "inserted cs = removed cs rs @ pending s'"
      by (simp add: pending_init)
    then show ?thesis by (metis set_append Un_upper1)
  qed
  then show ?thesis
    by (simp add: pending_init)
       (simp add: ringbuffer_init_def ringbuffer_get_count_def ringbuffer_is_empty_def)
qed

theorem init_resets_witness:
  "legal (ringbuffer_init (fst (insert_all (ringbuffer_init zeroed 100 2, id) [5])) 100 2,
          snd (insert_all (ringbuffer_init zeroed 100 2, id) [5]))
     [Insert 7, Remove]
   \<and> set (removed [Insert 7, Remove]
        (fst (rb_run
           (ringbuffer_init (fst (insert_all (ringbuffer_init zeroed 100 2, id) [5])) 100 2,
            snd (insert_all (ringbuffer_init zeroed 100 2, id) [5]))
           [Insert 7, Remove])))
       \<subseteq> set (inserted [Insert 7, Remove :: nat rb_op])"
proof -
  let ?old = "insert_all (ringbuffer_init zeroed 100 2, id :: nat \<Rightarrow> nat) [5]"
  let ?s = "(ringbuffer_init (fst ?old) 100 2, snd ?old)"
  let ?cs = "[Insert 7, Remove :: nat rb_op]"
  have l: "legal ?s ?cs"
    by (simp add: ringbuffer_init_def zeroed_def ringbuffer_is_full_def
        ringbuffer_is_empty_def ringbuffer_get_count_def Let_def)
  have r: "rb_run ?s ?cs = (fst (rb_run ?s ?cs), snd (rb_run ?s ?cs))"
    by (rule prod.collapse [symmetric])
  from init_resets [of "fst ?old" 100 2 "snd ?old"] l r
  have "set (removed ?cs (fst (rb_run ?s ?cs))) \<subseteq> set (inserted ?cs)"
    by blast
  with l show ?thesis by blast
qed

section \<open>Insert on a full buffer\<close>

text \<open>
  Claim C9, amended. An insert on a full buffer (count equal to capacity) still
  increments the 16-bit count: right afterwards the count is the capacity plus one
  modulo \<open>2 ^ 16\<close>, that is the capacity plus one for every capacity below 65535 and
  0 for capacity 65535; \<open>ringbuffer_is_full\<close> returns false and the free count is
  65535, so the overfull state is not reported as full.
\<close>

theorem insert_on_full:
  assumes "ringbuffer_is_full b = 1"
  shows "ringbuffer_get_count (fst (ringbuffer_insert (b, h) e)) = rb_size b + 1
         \<and> (rb_size b \<noteq> 65535 \<longrightarrow>
              unat (ringbuffer_get_count (fst (ringbuffer_insert (b, h) e)))
                = unat (rb_size b) + 1)
         \<and> (rb_size b = 65535 \<longrightarrow>
              ringbuffer_get_count (fst (ringbuffer_insert (b, h) e)) = 0)
         \<and> ringbuffer_is_full (fst (ringbuffer_insert (b, h) e)) = 0
         \<and> ringbuffer_get_free_count (fst (ringbuffer_insert (b, h) e)) = 65535"
proof -
  from assms have c: "rb_sount b = rb_size b"
    by (simp add: ringbuffer_is_full_def ringbuffer_get_count_def split: if_splits)
  have f: "rb_sount (fst (ringbuffer_insert (b, h) e)) = rb_size b + 1"
    "rb_size (fst (ringbuffer_insert (b, h) e)) = rb_size b"
    by (simp_all add: Let_def c)
  have "unat (rb_size b + 1) = unat (rb_size b) + 1" if "rb_size b \<noteq> 65535"
  proof -
    have "1 + rb_size b \<noteq> 0"
    proof
      assume "1 + rb_size b = 0"
      then have "rb_size b = - 1" by (simp add: add_eq_0_iff)
      then have "rb_size b = 65535" by simp
      with that show False by simp
    qed
    then show ?thesis using unatSuc [of "rb_size b"] by (simp add: add.commute)
  qed
  then show ?thesis
    by (auto simp add: f ringbuffer_get_count_def ringbuffer_is_full_def
        ringbuffer_get_free_count_def simp del: ringbuffer_insert.simps)
qed

theorem insert_on_full_witness:
  "ringbuffer_is_full (fst (insert_all (ringbuffer_init zeroed 100 2, id) [7, 8 :: nat])) = 1
   \<and> rb_size (fst (insert_all (ringbuffer_init zeroed 100 2, id) [7, 8 :: nat])) \<noteq> 65535
   \<and> unat (ringbuffer_get_count
        (fst (ringbuffer_insert
           (fst (insert_all (ringbuffer_init zeroed 100 2, id) [7, 8 :: nat]), id) (9 :: nat)))) = 3
   \<and> ringbuffer_is_full
        (fst (ringbuffer_insert
           (fst (insert_all (ringbuffer_init zeroed 100 2, id) [7, 8 :: nat]), id) (9 :: nat))) = 0
   \<and> ringbuffer_get_free_count
        (fst (ringbuffer_insert
           (fst (insert_all (ringbuffer_init zeroed 100 2, id) [7, 8 :: nat]), id) (9 :: nat)))
       = 65535
   \<and> ringbuffer_is_full (zeroed\<lparr>rb_end := 65535, rb_size := 65535, rb_sount := 65535\<rparr>) = 1
   \<and> ringbuffer_get_count
        (fst (ringbuffer_insert
           (zeroed\<lparr>rb_end := 65535, rb_size := 65535, rb_sount := 65535\<rparr>, id) (9 :: nat))) = 0"
proof -
  let ?b = "fst (insert_all (ringbuffer_init zeroed 100 2, id :: nat \<Rightarrow> nat) [7, 8])"
  let ?m = "zeroed\<lparr>rb_end := 65535, rb_size := 65535, rb_sount := 65535\<rparr>"
  have f: "ringbuffer_is_full ?b = 1" and n: "rb_size ?b \<noteq> 65535"
    by (simp_all add: ringbuffer_is_full_def ringbuffer_get_count_def ringbuffer_init_def
        Let_def)
  have n': "unat (rb_size ?b) + 1 = 3"
    by (simp add: ringbuffer_init_def Let_def)
  have g: "ringbuffer_is_full ?m = 1" and k: "rb_size ?m = 65535"
    by (simp_all add: ringbuffer_is_full_def ringbuffer_get_count_def)
  note small = insert_on_full [OF f, of "id :: nat \<Rightarrow> nat" 9]
  from small n
  have "unat (ringbuffer_get_count (fst (ringbuffer_insert (?b, id) (9 :: nat))))
          = unat (rb_size ?b) + 1"
    by blast
  then have "unat (ringbuffer_get_count (fst (ringbuffer_insert (?b, id) (9 :: nat)))) = 3"
    by (simp only: n')
  moreover from small
  have "ringbuffer_is_full (fst (ringbuffer_insert (?b, id) (9 :: nat))) = 0"
    and "ringbuffer_get_free_count (fst (ringbuffer_insert (?b, id) (9 :: nat))) = 65535"
    by blast+
  moreover from insert_on_full [OF g, of "id :: nat \<Rightarrow> nat" 9] k
  have "ringbuffer_get_count (fst (ringbuffer_insert (?m, id) (9 :: nat))) = 0"
    by blast
  ultimately show ?thesis using f n g by blast
qed

text \<open>
  The count does not become the capacity plus one at capacity 65535: after
  initialising with that capacity and filling the buffer with 65535 inserts, one
  more insert leaves the count at 0.
\<close>

theorem insert_on_full_counterexample:
  "ringbuffer_is_full
     (fst (insert_all (ringbuffer_init zeroed 0 65535, id) (replicate 65535 (0 :: nat)))) = 1
   \<and> uint (ringbuffer_get_count
        (fst (ringbuffer_insert
           (insert_all (ringbuffer_init zeroed 0 65535, id) (replicate 65535 (0 :: nat))) 0)))
      \<noteq> uint (rb_size
        (fst (insert_all (ringbuffer_init zeroed 0 65535, id) (replicate 65535 (0 :: nat))))) + 1"
  by (simp add: ringbuffer_is_full_def ringbuffer_get_count_def insert_fields
      insert_all_fields ringbuffer_init_def)

section \<open>What no call changes\<close>

text \<open>
  Claim C10. Each of the seven calls other than the initialisation (count, free
  count, is-empty, is-full, insert, remove, peek) leaves the capacity field and the
  start and end pointers of the array as they were, in every buffer state, whether or
  not the full/empty discipline is kept.
\<close>

theorem calls_keep_binding:
  "rb_size (fst (snd (rb_call s c))) = rb_size (fst s)
   \<and> rb_start (fst (snd (rb_call s c))) = rb_start (fst s)
   \<and> rb_end (fst (snd (rb_call s c))) = rb_end (fst s)"
  by (cases c; cases s) (simp_all add: Let_def)

end
